theory Spec2Isabelle
  imports
    Main
    "HOL-Library.Multiset"
    "HOL-Library.AList"
    "HOL-Library.Char_ord"
    "HOL-Library.List_Lexorder"
begin

section \<open>The expense tracker of \<^verbatim>\<open>expense2.cpp\<close>\<close>

subsection \<open>Data\<close>

text \<open>
  \<^verbatim>\<open>struct Expense { double amount; std::string category; std::string date; bool deleted = false; }\<close>

  The amount is a \<^verbatim>\<open>double\<close>. The program only ever adds amounts (\<^verbatim>\<open>+=\<close>, starting from the
  value-initialised \<^verbatim>\<open>0.0\<close>) and compares them (\<^verbatim>\<open><\<close>), so the amount type is a parameter
  \<open>'a\<close> of the model and each function asks only for the operations it uses
  (\<open>zero\<close>, \<open>plus\<close>, \<open>ord\<close>). No law of arithmetic is assumed of \<open>+\<close>: what is proved about
  totals holds for any addition, a rounding one included. Only the ranking lemmas of the
  top expenses need \<open><\<close> to be a linear order (amounts without NaN) and say so in their
  types.
  Strings are byte strings compared lexicographically, bytes as unsigned values, which is
  the order of \<^verbatim>\<open>std::string\<close>.
\<close>

record 'a Expense =
  amount :: 'a
  category :: string
  date :: string
  deleted :: bool

text \<open>\<^verbatim>\<open>Expense::operator<\<close>: by date only.\<close>

definition expense_less :: "'a Expense \<Rightarrow> 'a Expense \<Rightarrow> bool" where
  "expense_less a b = (date a < date b)"

text \<open>\<^verbatim>\<open>CompareByAmount::operator()\<close>.\<close>

definition CompareByAmount :: "('a::ord) Expense \<Rightarrow> 'a Expense \<Rightarrow> bool" where
  "CompareByAmount a b = (amount a < amount b)"

text \<open>
  The four members of \<^verbatim>\<open>class ExpenseTracker\<close>. A \<^verbatim>\<open>std::unordered_map\<close> is an association
  list with distinct keys: \<open>map_of\<close> looks a key up, \<open>AList.update\<close> overwrites the entry of
  a key in place or appends a new one. C++ leaves the iteration order open; the model
  iterates in the order of first insertion. The priority queue is the list of its elements
  in the order they were pushed.
\<close>

record 'a ExpenseTracker =
  expenses :: "'a Expense list"
  categoryMap :: "(string \<times> 'a Expense list) list"
  categoryTotals :: "(string \<times> 'a) list"
  maxHeap :: "'a Expense list"

definition init :: "'a ExpenseTracker" where
  "init = \<lparr>expenses = [], categoryMap = [], categoryTotals = [], maxHeap = []\<rparr>"

text \<open>What an operation prints, line by line. A row is \<^verbatim>\<open>$amount | s1 | s2 ...\<close>.\<close>

datatype 'a line =
    Text string
  | TopHeader nat
  | Row 'a "string list"
  | Total string 'a

fun is_row :: "'a line \<Rightarrow> bool" where
  "is_row (Row a cs) = True"
| "is_row l = False"

definition rows :: "'a line list \<Rightarrow> 'a line list" where
  "rows out = filter is_row out"

subsection \<open>The library containers\<close>

text \<open>
  \<^verbatim>\<open>m[k]\<close> of \<^verbatim>\<open>std::unordered_map\<close>: the value stored at \<open>k\<close>, a value-initialised one
  (given as \<open>dflt\<close>) when the key is new.
\<close>

definition um_at :: "('k \<times> 'v) list \<Rightarrow> 'k \<Rightarrow> 'v \<Rightarrow> 'v" where
  "um_at m k dflt = (case map_of m k of None \<Rightarrow> dflt | Some v \<Rightarrow> v)"

text \<open>
  \<^verbatim>\<open>std::priority_queue<Expense, std::vector<Expense>, CompareByAmount>\<close>: \<open>top\<close> is an element
  that no other element exceeds under the comparator. Which one of several with equal
  amounts is left open by the library; the model takes the one pushed first.
  \<open>top\<close> of an empty queue is undefined behaviour in C++ and has no equation here; the
  program only calls it after \<^verbatim>\<open>!tempHeap.empty()\<close>.
\<close>

definition pq_push :: "'a Expense \<Rightarrow> 'a Expense list \<Rightarrow> 'a Expense list" where
  "pq_push x h = h @ [x]"

definition pq_empty :: "'a Expense list \<Rightarrow> bool" where
  "pq_empty h = (h = [])"

fun pq_best :: "('a::ord) Expense \<Rightarrow> 'a Expense list \<Rightarrow> 'a Expense" where
  "pq_best b [] = b"
| "pq_best b (e # es) = pq_best (if CompareByAmount b e then e else b) es"

fun pq_top :: "('a::ord) Expense list \<Rightarrow> 'a Expense" where
  "pq_top (x # xs) = pq_best x xs"

definition pq_pop :: "('a::ord) Expense list \<Rightarrow> 'a Expense list" where
  "pq_pop h = remove1 (pq_top h) h"

text \<open>
  \<^verbatim>\<open>std::equal_range\<close> on a range partitioned by \<^verbatim>\<open>operator<\<close>: the first position whose
  element is not less than the value, and the first position whose element is greater.
\<close>

definition lower_bound :: "'a Expense list \<Rightarrow> 'a Expense \<Rightarrow> nat" where
  "lower_bound xs v = length (takeWhile (\<lambda>e. expense_less e v) xs)"

definition upper_bound :: "'a Expense list \<Rightarrow> 'a Expense \<Rightarrow> nat" where
  "upper_bound xs v = length (takeWhile (\<lambda>e. \<not> expense_less v e) xs)"

subsection \<open>The operations\<close>

definition addExpense ::
  "('a::{zero,plus}) \<Rightarrow> string \<Rightarrow> string \<Rightarrow> 'a ExpenseTracker \<Rightarrow> 'a ExpenseTracker" where
  "addExpense a c d s =
     (let exp = \<lparr>amount = a, category = c, date = d, deleted = False\<rparr>
      in s\<lparr>expenses := expenses s @ [exp],
           categoryMap := AList.update c (um_at (categoryMap s) c [] @ [exp]) (categoryMap s),
           categoryTotals := AList.update c (um_at (categoryTotals s) c 0 + a) (categoryTotals s),
           maxHeap := pq_push exp (maxHeap s)\<rparr>)"

definition viewExpenses :: "'a ExpenseTracker \<Rightarrow> 'a line list" where
  "viewExpenses s =
     Text ''Amount | Category | Date'' #
     map (\<lambda>e. Row (amount e) [category e, date e]) (filter (\<lambda>e. \<not> deleted e) (expenses s))"

definition filterByCategory :: "string \<Rightarrow> 'a ExpenseTracker \<Rightarrow> 'a line list" where
  "filterByCategory c s =
     Text (''Expenses for category: '' @ c) # Text ''Amount | Date'' #
     (case map_of (categoryMap s) c of
        Some bucket \<Rightarrow> map (\<lambda>e. Row (amount e) [date e]) (filter (\<lambda>e. \<not> deleted e) bucket)
      | None \<Rightarrow> [Text ''No expenses found for this category.''])"

definition viewCategoryTotals :: "'a ExpenseTracker \<Rightarrow> 'a line list" where
  "viewCategoryTotals s =
     Text ''Total Expenses by Category:'' # map (\<lambda>(c, t). Total c t) (categoryTotals s)"

text \<open>
  \<^verbatim>\<open>std::sort(expenses.begin(), expenses.end())\<close> compares with \<^verbatim>\<open>Expense::operator<\<close> and with
  nothing else. The model is the insertion sort over that comparator: each record in turn
  is put into the part already sorted, in front of the first record it is less than. The
  library leaves open where a record goes among records that compare equal; this one goes
  behind them.
\<close>

fun linear_insert :: "'a Expense \<Rightarrow> 'a Expense list \<Rightarrow> 'a Expense list" where
  "linear_insert x [] = [x]"
| "linear_insert x (y # ys) =
     (if expense_less x y then x # y # ys else y # linear_insert x ys)"

definition std_sort :: "'a Expense list \<Rightarrow> 'a Expense list" where
  "std_sort xs = fold linear_insert xs []"

text \<open>
  \<^verbatim>\<open>filterByDate\<close> sorts the member \<^verbatim>\<open>expenses\<close> itself, so it returns the new state with its
  output.
\<close>

definition filterByDate ::
  "string \<Rightarrow> ('a::zero) ExpenseTracker \<Rightarrow> 'a line list \<times> 'a ExpenseTracker" where
  "filterByDate targetDate s =
     (let sorted_log = std_sort (expenses s);
          s' = s\<lparr>expenses := sorted_log\<rparr>;
          probe = \<lparr>amount = 0, category = [], date = targetDate, deleted = False\<rparr>;
          first = lower_bound sorted_log probe;
          second = upper_bound sorted_log probe
      in if first = second
         then ([Text (''No expenses found for date: '' @ targetDate)], s')
         else (Text (''Expenses for '' @ targetDate @ '':'') # Text ''Amount | Category'' #
               map (\<lambda>e. Row (amount e) [category e])
                 (filter (\<lambda>e. \<not> deleted e) (take (second - first) (drop first sorted_log))),
               s'))"

text \<open>The index is a \<^verbatim>\<open>size_t\<close>: it is never negative.\<close>

definition deleteExpense ::
  "nat \<Rightarrow> 'a ExpenseTracker \<Rightarrow> 'a line list \<times> 'a ExpenseTracker" where
  "deleteExpense index s =
     (if index < length (expenses s)
      then ([Text ''Expense deleted lazily.''],
            s\<lparr>expenses := (expenses s)[index := (expenses s ! index)\<lparr>deleted := True\<rparr>]\<rparr>)
      else ([Text ''Invalid index.''], s))"

text \<open>
  The loop of \<^verbatim>\<open>viewTopExpenses\<close>, \<^verbatim>\<open>for (i = 0; i < N && !tempHeap.empty(); ++i)\<close>, by
  recursion on the rounds that remain, \<open>N - i\<close>. Each round pops one element, printed or not.
\<close>

fun top_loop :: "nat \<Rightarrow> ('a::ord) Expense list \<Rightarrow> 'a line list" where
  "top_loop 0 tempHeap = []"
| "top_loop (Suc n) tempHeap =
     (if pq_empty tempHeap then []
      else let top = pq_top tempHeap;
               tempHeap' = pq_pop tempHeap
           in (if \<not> deleted top then [Row (amount top) [category top, date top]] else [])
              @ top_loop n tempHeap')"

definition viewTopExpenses ::
  "nat \<Rightarrow> ('a::ord) ExpenseTracker \<Rightarrow> 'a line list \<times> 'a ExpenseTracker" where
  "viewTopExpenses N s =
     (let tempHeap = maxHeap s
      in (TopHeader N # Text ''Amount | Category | Date'' # top_loop N tempHeap, s))"

subsection \<open>The menu loop of \<^verbatim>\<open>main\<close>\<close>

datatype 'a choice =
    AddExpense 'a string string
  | ViewExpenses
  | FilterByCategory string
  | ViewCategoryTotals
  | FilterByDate string
  | DeleteExpense nat
  | ViewTopExpenses nat

fun step ::
  "('a::{zero,plus,ord}) choice \<Rightarrow> 'a ExpenseTracker \<Rightarrow> 'a line list \<times> 'a ExpenseTracker" where
  "step (AddExpense a c d) s = ([], addExpense a c d s)"
| "step ViewExpenses s = (viewExpenses s, s)"
| "step (FilterByCategory c) s = (filterByCategory c s, s)"
| "step ViewCategoryTotals s = (viewCategoryTotals s, s)"
| "step (FilterByDate d) s = filterByDate d s"
| "step (DeleteExpense i) s = deleteExpense i s"
| "step (ViewTopExpenses n) s = viewTopExpenses n s"

fun run :: "('a::{zero,plus,ord}) choice list \<Rightarrow> 'a ExpenseTracker \<Rightarrow> 'a ExpenseTracker" where
  "run [] s = s"
| "run (c # cs) s = run cs (snd (step c s))"

subsection \<open>Calls and what they should leave behind\<close>

text \<open>
  The sum of a list of amounts the way the program forms it: from \<^verbatim>\<open>0.0\<close>, adding one
  amount after the other with \<^verbatim>\<open>+=\<close>.
\<close>

definition total_of :: "('a::{zero,plus}) list \<Rightarrow> 'a" where
  "total_of xs = foldl (+) 0 xs"

text \<open>The amounts of the \<^verbatim>\<open>addExpense\<close> calls made with category \<open>K\<close>, in call order.\<close>

fun added_amounts :: "string \<Rightarrow> 'a choice list \<Rightarrow> 'a list" where
  "added_amounts K [] = []"
| "added_amounts K (AddExpense a c d # cs) =
     (if c = K then a # added_amounts K cs else added_amounts K cs)"
| "added_amounts K (other # cs) = added_amounts K cs"

text \<open>The \<^verbatim>\<open>addExpense\<close> calls of a run, in call order.\<close>

fun added :: "'a choice list \<Rightarrow> ('a \<times> string \<times> string) list" where
  "added [] = []"
| "added (AddExpense a c d # cs) = (a, c, d) # added cs"
| "added (other # cs) = added cs"

text \<open>
  Position \<open>i\<close> has been deleted by a run when some call of the run is
  \<^verbatim>\<open>deleteExpense(i)\<close>, made when the log already had more than \<open>i\<close> entries.
\<close>

definition deleted_by :: "'a choice list \<Rightarrow> nat \<Rightarrow> bool" where
  "deleted_by cs i =
     list_ex (\<lambda>j. cs ! j = DeleteExpense i \<and> i < length (added (take j cs))) [0..<length cs]"

text \<open>The added expenses that no call has deleted, in the order they were added.\<close>

definition visible :: "'a choice list \<Rightarrow> ('a \<times> string \<times> string) list" where
  "visible cs =
     map (\<lambda>i. added cs ! i) (filter (\<lambda>i. \<not> deleted_by cs i) [0..<length (added cs)])"

text \<open>The one operation that reorders the log.\<close>

fun sorts_log :: "'a choice \<Rightarrow> bool" where
  "sorts_log (FilterByDate d) = True"
| "sorts_log other = False"

definition entry_of :: "'a Expense \<Rightarrow> 'a \<times> string \<times> string" where
  "entry_of e = (amount e, category e, date e)"

text \<open>The row \<^verbatim>\<open>viewTopExpenses\<close> prints for a record.\<close>

definition top_row :: "'a Expense \<Rightarrow> 'a line" where
  "top_row e = Row (amount e) [category e, date e]"

text \<open>A record as \<^verbatim>\<open>addExpense\<close> stored it: with the deletion mark clear.\<close>

definition undeleted :: "'a Expense \<Rightarrow> 'a Expense" where
  "undeleted e = e\<lparr>deleted := False\<rparr>"

subsection \<open>Invariants of the store\<close>

text \<open>Every total is the sum over its bucket, and both maps have the same keys.\<close>

definition totals_match :: "('a::{zero,plus}) ExpenseTracker \<Rightarrow> bool" where
  "totals_match s \<longleftrightarrow>
     (\<forall>K. map_of (categoryTotals s) K =
        map_option (\<lambda>bucket. total_of (map amount bucket)) (map_of (categoryMap s) K))"

text \<open>
  The heap and the buckets hold one copy of every log entry, each copy with the deletion
  mark clear, whatever the mark of the log entry is.
\<close>

definition copies_match :: "'a ExpenseTracker \<Rightarrow> bool" where
  "copies_match s \<longleftrightarrow>
     mset (maxHeap s) = image_mset undeleted (mset (expenses s)) \<and>
     (\<forall>K. mset (um_at (categoryMap s) K []) =
            filter_mset (\<lambda>e. category e = K) (image_mset undeleted (mset (expenses s))))"

text \<open>The log holds the added expenses in call order, marked as the calls deleted them.\<close>

definition log_matches :: "('a::{zero,plus,ord}) choice list \<Rightarrow> 'a ExpenseTracker \<Rightarrow> bool" where
  "log_matches cs s \<longleftrightarrow>
     map entry_of (expenses s) = added cs \<and>
     (\<forall>i<length (expenses s). deleted (expenses s ! i) = deleted_by cs i)"

subsection \<open>The example scenario\<close>

text \<open>Three expenses in two categories and on two dates, amounts in cents.\<close>

definition example_adds :: "int choice list" where
  "example_adds =
     [AddExpense 1250 ''food'' ''2024-01-05'',
      AddExpense 4000 ''food'' ''2024-01-06'',
      AddExpense 10000 ''travel'' ''2024-01-05'']"

definition example_store :: "int ExpenseTracker" where
  "example_store = run example_adds init"

section \<open>Sorting with the comparator of the records\<close>

lemma mset_linear_insert: "mset (linear_insert x ys) = add_mset x (mset ys)"
  by (induction ys) simp_all

lemma set_linear_insert: "set (linear_insert x ys) = insert x (set ys)"
  by (induction ys) auto

text \<open>
  Here the comparator matters: a record goes behind \<open>y\<close> only when it is not less than
  \<open>y\<close>, which for dates means that its date is not before that of \<open>y\<close>.
\<close>

lemma sorted_linear_insert:
  assumes "sorted (map date ys)"
  shows "sorted (map date (linear_insert x ys))"
  using assms
proof (induction ys)
  case Nil
  then show ?case by simp
next
  case (Cons y ys)
  show ?case
  proof (cases "expense_less x y")
    case True
    then have "date x \<le> date y" by (simp add: expense_less_def)
    with True Cons.prems show ?thesis by auto
  next
    case False
    then have "date y \<le> date x" by (simp add: expense_less_def not_less)
    with False Cons show ?thesis by (auto simp: set_linear_insert)
  qed
qed

lemma mset_fold_linear_insert: "mset (fold linear_insert xs acc) = mset xs + mset acc"
  by (induction xs arbitrary: acc) (simp_all add: mset_linear_insert)

lemma sorted_fold_linear_insert:
  "sorted (map date acc) \<Longrightarrow> sorted (map date (fold linear_insert xs acc))"
  by (induction xs arbitrary: acc) (simp_all add: sorted_linear_insert)

lemma mset_std_sort [simp]: "mset (std_sort xs) = mset xs"
  by (simp add: std_sort_def mset_fold_linear_insert)

lemma set_std_sort [simp]: "set (std_sort xs) = set xs"
  by (metis mset_std_sort set_mset_mset)

lemma sorted_std_sort: "sorted (map date (std_sort xs))"
  by (simp add: std_sort_def sorted_fold_linear_insert)

lemma sorted_wrt_std_sort: "sorted_wrt (\<lambda>a b. \<not> expense_less b a) (std_sort xs)"
  using sorted_std_sort[of xs]
  by (simp add: sorted_map expense_less_def not_less)

section \<open>What each operation changes\<close>

lemma filterByDate_members [simp]:
  "categoryMap (snd (filterByDate d s)) = categoryMap s"
  "categoryTotals (snd (filterByDate d s)) = categoryTotals s"
  "maxHeap (snd (filterByDate d s)) = maxHeap s"
  "expenses (snd (filterByDate d s)) = std_sort (expenses s)"
  by (simp_all add: filterByDate_def Let_def)

lemma deleteExpense_members [simp]:
  "categoryMap (snd (deleteExpense i s)) = categoryMap s"
  "categoryTotals (snd (deleteExpense i s)) = categoryTotals s"
  "maxHeap (snd (deleteExpense i s)) = maxHeap s"
  by (simp_all add: deleteExpense_def)

lemma viewTopExpenses_snd [simp]: "snd (viewTopExpenses N s) = s"
  by (simp add: viewTopExpenses_def)

lemma categoryTotals_addExpense:
  "map_of (categoryTotals (addExpense a c d s)) K =
     (if c = K then Some (um_at (categoryTotals s) c 0 + a) else map_of (categoryTotals s) K)"
  by (simp add: addExpense_def Let_def update_conv')

lemma categoryMap_addExpense:
  "map_of (categoryMap (addExpense a c d s)) K =
     (if c = K
      then Some (um_at (categoryMap s) c [] @ [\<lparr>amount = a, category = c, date = d, deleted = False\<rparr>])
      else map_of (categoryMap s) K)"
  by (simp add: addExpense_def Let_def update_conv')

lemma um_at_addExpense:
  "um_at (categoryMap (addExpense a c d s)) K [] =
     (if c = K
      then um_at (categoryMap s) c [] @ [\<lparr>amount = a, category = c, date = d, deleted = False\<rparr>]
      else um_at (categoryMap s) K [])"
  by (simp add: um_at_def categoryMap_addExpense)

lemma run_snoc: "run (cs @ [ch]) s = snd (step ch (run cs s))"
  by (induction cs arbitrary: s) simp_all

lemma rows_Text: "rows (Text t # out) = rows out"
  by (simp add: rows_def)

lemma rows_map_Row: "rows (map (\<lambda>e. Row (f e) (g e)) xs) = map (\<lambda>e. Row (f e) (g e)) xs"
  by (induction xs) (simp_all add: rows_def)

text \<open>The keys of both association lists stay distinct, as those of a hash map are.\<close>

lemma distinct_keys_run:
  assumes "distinct (map fst (categoryMap s))" and "distinct (map fst (categoryTotals s))"
  shows "distinct (map fst (categoryMap (run cs s))) \<and> distinct (map fst (categoryTotals (run cs s)))"
  using assms
proof (induction cs arbitrary: s)
  case Nil
  then show ?case by simp
next
  case (Cons ch cs)
  have "distinct (map fst (categoryMap (snd (step ch s))))
      \<and> distinct (map fst (categoryTotals (snd (step ch s))))"
    using Cons.prems by (cases ch) (simp_all add: addExpense_def Let_def distinct_update)
  with Cons.IH show ?case by simp
qed

section \<open>Deletion\<close>

lemma deleteExpense_valid:
  "index < length (expenses s) \<Longrightarrow>
   deleteExpense index s =
     ([Text ''Expense deleted lazily.''],
      s\<lparr>expenses := (expenses s)[index := (expenses s ! index)\<lparr>deleted := True\<rparr>]\<rparr>)"
  by (simp add: deleteExpense_def)

lemma deleteExpense_invalid:
  "\<not> index < length (expenses s) \<Longrightarrow> deleteExpense index s = ([Text ''Invalid index.''], s)"
  by (simp add: deleteExpense_def)

text \<open>
  Claim C4. \<^verbatim>\<open>deleteExpense(i)\<close> reports success exactly when \<open>i\<close> is below the size of the
  log, and then entry \<open>i\<close> of the log is marked deleted (the log keeps its length); for any
  other \<open>i\<close> it prints \<^verbatim>\<open>Invalid index.\<close> and the store is the one it was.
\<close>

theorem deleteExpense_bounds:
  "(fst (deleteExpense index s) = [Text ''Expense deleted lazily.''] \<longleftrightarrow> index < length (expenses s)) \<and>
   (index < length (expenses s) \<longrightarrow>
      deleted (expenses (snd (deleteExpense index s)) ! index) \<and>
      length (expenses (snd (deleteExpense index s))) = length (expenses s)) \<and>
   (\<not> index < length (expenses s) \<longrightarrow>
      deleteExpense index s = ([Text ''Invalid index.''], s))"
  by (simp add: deleteExpense_def)

theorem deleteExpense_bounds_witness:
  "0 < length (expenses example_store)
   \<and> deleted (expenses (snd (deleteExpense 0 example_store)) ! 0)
   \<and> \<not> 3 < length (expenses example_store)
   \<and> deleteExpense 3 example_store = ([Text ''Invalid index.''], example_store)"
proof -
  have inside: "0 < length (expenses example_store)" by code_simp
  have outside: "\<not> 3 < length (expenses example_store)" by code_simp
  from deleteExpense_bounds[of 0 example_store] inside
  have "deleted (expenses (snd (deleteExpense 0 example_store)) ! 0)" by blast
  moreover from deleteExpense_bounds[of 3 example_store] outside
  have "deleteExpense 3 example_store = ([Text ''Invalid index.''], example_store)" by blast
  ultimately show ?thesis using inside outside by blast
qed

text \<open>
  Claim C8. Deleting a valid index a second time leaves the store exactly as the first
  deletion left it.
\<close>

theorem deleteExpense_idempotent:
  "index < length (expenses s) \<Longrightarrow>
   snd (deleteExpense index (snd (deleteExpense index s))) = snd (deleteExpense index s)"
  by (simp add: deleteExpense_def)

theorem deleteExpense_idempotent_witness:
  "1 < length (expenses example_store)
   \<and> snd (deleteExpense 1 (snd (deleteExpense 1 example_store)))
       = snd (deleteExpense 1 example_store)"
proof -
  have valid: "1 < length (expenses example_store)" by code_simp
  from deleteExpense_idempotent[OF valid] valid show ?thesis by blast
qed

section \<open>Category totals\<close>

lemma totals_run:
  "map_of (categoryTotals (run cs s)) K =
     (if added_amounts K cs = [] then map_of (categoryTotals s) K
      else Some (foldl (+) (um_at (categoryTotals s) K 0) (added_amounts K cs)))"
proof (induction cs arbitrary: s)
  case Nil
  then show ?case by simp
next
  case (Cons ch cs)
  show ?case
  proof (cases ch)
    case (AddExpense a c d)
    then show ?thesis
      by (simp add: Cons.IH categoryTotals_addExpense um_at_def)
  qed (simp_all add: Cons.IH)
qed

text \<open>
  Claim C1. After any run of calls from the empty store, the total stored for a category
  \<open>K\<close> is the sum of the amounts of all \<^verbatim>\<open>addExpense\<close> calls made with \<open>K\<close>, added up in call
  order; no entry is stored when there was no such call. The \<^verbatim>\<open>deleteExpense\<close> calls of the
  run do not enter the right-hand side: a deletion never lowers a total.
\<close>

theorem categoryTotals_sum_of_adds:
  "map_of (categoryTotals (run cs init)) K =
     (if added_amounts K cs = [] then None else Some (total_of (added_amounts K cs)))"
  by (simp add: totals_run total_of_def um_at_def init_def)

theorem categoryTotals_sum_of_adds_witness:
  "map_of (categoryTotals (run (example_adds @ [DeleteExpense 0]) init)) ''food'' = Some 5250
   \<and> added_amounts ''food'' (example_adds @ [DeleteExpense 0]) = [1250, 4000]"
proof -
  have a: "added_amounts ''food'' (example_adds @ [DeleteExpense 0]) = [1250, 4000]"
    by code_simp
  have "total_of [1250, 4000 :: int] = 5250" by code_simp
  with categoryTotals_sum_of_adds[of "example_adds @ [DeleteExpense 0]" "''food''"] a
  show ?thesis by simp
qed

lemma total_of_snoc: "total_of (xs @ [x]) = total_of xs + x"
  by (simp add: total_of_def)

lemma totals_match_addExpense:
  assumes "totals_match s"
  shows "totals_match (addExpense a c d s)"
  unfolding totals_match_def
proof
  fix K
  from assms have m: "map_of (categoryTotals s) c =
        map_option (\<lambda>bucket. total_of (map amount bucket)) (map_of (categoryMap s) c)"
    and k: "map_of (categoryTotals s) K =
        map_option (\<lambda>bucket. total_of (map amount bucket)) (map_of (categoryMap s) K)"
    by (simp_all add: totals_match_def)
  show "map_of (categoryTotals (addExpense a c d s)) K =
        map_option (\<lambda>bucket. total_of (map amount bucket)) (map_of (categoryMap (addExpense a c d s)) K)"
  proof (cases "c = K")
    case True
    show ?thesis
    proof (cases "map_of (categoryMap s) c")
      case None
      with m True show ?thesis
        by (simp add: categoryTotals_addExpense categoryMap_addExpense um_at_def total_of_def)
    next
      case (Some b)
      with m True show ?thesis
        by (simp add: categoryTotals_addExpense categoryMap_addExpense um_at_def total_of_snoc)
    qed
  next
    case False
    with k show ?thesis
      by (simp add: categoryTotals_addExpense categoryMap_addExpense)
  qed
qed

lemma totals_match_step: "totals_match s \<Longrightarrow> totals_match (snd (step ch s))"
proof (cases ch)
  case (AddExpense a c d)
  assume "totals_match s"
  with AddExpense show ?thesis by (simp add: totals_match_addExpense)
qed (simp_all add: totals_match_def)

lemma totals_match_run: "totals_match s \<Longrightarrow> totals_match (run cs s)"
  by (induction cs arbitrary: s) (simp_all add: totals_match_step)

lemma totals_match_init: "totals_match init"
  by (simp add: totals_match_def init_def)

text \<open>
  Claim C10. In every state reached from the empty store by the operations of the menu,
  \<^verbatim>\<open>categoryMap\<close> and \<^verbatim>\<open>categoryTotals\<close> have the same keys, and the total of a category is
  the sum of the amounts of all entries of its bucket, added up in bucket order.
\<close>

theorem totals_agree_with_buckets:
  "fst ` set (categoryMap (run cs init)) = fst ` set (categoryTotals (run cs init))
   \<and> (\<forall>K bucket. map_of (categoryMap (run cs init)) K = Some bucket \<longrightarrow>
         map_of (categoryTotals (run cs init)) K = Some (total_of (map amount bucket)))"
proof -
  let ?s = "run cs init :: 'a ExpenseTracker"
  have tm: "totals_match ?s" by (simp add: totals_match_run totals_match_init)
  then have "dom (map_of (categoryTotals ?s)) = dom (map_of (categoryMap ?s))"
    by (auto simp: totals_match_def dom_def)
  then have "fst ` set (categoryMap ?s) = fst ` set (categoryTotals ?s)"
    by (simp add: dom_map_of_conv_image_fst)
  with tm show ?thesis by (simp add: totals_match_def)
qed

theorem totals_agree_with_buckets_witness:
  "map_of (categoryMap (run example_adds init)) ''food'' =
     Some [\<lparr>amount = 1250, category = ''food'', date = ''2024-01-05'', deleted = False\<rparr>,
           \<lparr>amount = 4000, category = ''food'', date = ''2024-01-06'', deleted = False\<rparr>]
   \<and> map_of (categoryTotals (run example_adds init)) ''food'' = Some 5250
   \<and> fst ` set (categoryMap (run example_adds init)) = {''food'', ''travel''}"
proof -
  let ?bucket = "[\<lparr>amount = 1250, category = ''food'', date = ''2024-01-05'', deleted = False\<rparr>,
           \<lparr>amount = 4000, category = ''food'', date = ''2024-01-06'', deleted = False\<rparr>]
           :: int Expense list"
  have b: "map_of (categoryMap (run example_adds init)) ''food'' = Some ?bucket"
    by code_simp
  have keys: "fst ` set (categoryTotals (run example_adds init)) = {''food'', ''travel''}"
    by code_simp
  have sum: "total_of (map amount ?bucket) = 5250" by code_simp
  from totals_agree_with_buckets[of example_adds] b
  have "map_of (categoryTotals (run example_adds init)) ''food'' = Some (total_of (map amount ?bucket))"
    by blast
  moreover from totals_agree_with_buckets[of example_adds] keys
  have "fst ` set (categoryMap (run example_adds init)) = {''food'', ''travel''}"
    by simp
  ultimately show ?thesis using b sum by simp
qed

section \<open>The copies held by the heap and the buckets\<close>

lemma copies_match_addExpense:
  assumes "copies_match s"
  shows "copies_match (addExpense a c d s)"
proof -
  have e: "expenses (addExpense a c d s) =
           expenses s @ [\<lparr>amount = a, category = c, date = d, deleted = False\<rparr>]"
    and h: "maxHeap (addExpense a c d s) =
           maxHeap s @ [\<lparr>amount = a, category = c, date = d, deleted = False\<rparr>]"
    by (simp_all add: addExpense_def Let_def pq_push_def)
  from assms show ?thesis
    unfolding copies_match_def e h um_at_addExpense
    by (simp add: undeleted_def)
qed

lemma undeleted_mark: "undeleted (e\<lparr>deleted := b\<rparr>) = undeleted e"
  by (simp add: undeleted_def)

lemma undeleted_log_deleteExpense:
  "image_mset undeleted (mset (expenses (snd (deleteExpense i s))))
   = image_mset undeleted (mset (expenses s))"
proof (cases "i < length (expenses s)")
  case True
  have "map undeleted ((expenses s)[i := (expenses s ! i)\<lparr>deleted := True\<rparr>])
        = map undeleted (expenses s)"
    using True by (simp add: map_update undeleted_mark list_update_same_conv)
  then have "mset (map undeleted ((expenses s)[i := (expenses s ! i)\<lparr>deleted := True\<rparr>]))
        = mset (map undeleted (expenses s))" by simp
  then have "image_mset undeleted (mset ((expenses s)[i := (expenses s ! i)\<lparr>deleted := True\<rparr>]))
        = image_mset undeleted (mset (expenses s))" by (simp only: mset_map)
  with True show ?thesis by (simp add: deleteExpense_def)
next
  case False
  then show ?thesis by (simp add: deleteExpense_def)
qed

lemma copies_match_step: "copies_match s \<Longrightarrow> copies_match (snd (step ch s))"
proof (cases ch)
  case (AddExpense a c d)
  assume "copies_match s"
  with AddExpense show ?thesis by (simp add: copies_match_addExpense)
next
  case (DeleteExpense i)
  assume "copies_match s"
  with DeleteExpense show ?thesis
    by (simp add: copies_match_def undeleted_log_deleteExpense)
qed (simp_all add: copies_match_def)

lemma copies_match_run: "copies_match s \<Longrightarrow> copies_match (run cs s)"
  by (induction cs arbitrary: s) (simp_all add: copies_match_step)

lemma copies_match_init: "copies_match init"
  by (simp add: copies_match_def init_def um_at_def)

text \<open>
  Claim C3. In a state reached from the empty store, \<^verbatim>\<open>deleteExpense(i)\<close> with a valid \<open>i\<close>
  marks entry \<open>i\<close> of the log and nothing else: the other log entries, \<^verbatim>\<open>categoryMap\<close> and
  \<^verbatim>\<open>maxHeap\<close> are as before, the heap and the bucket of the record's category still hold
  the record with the mark clear, and no entry of the heap or of any bucket is marked.
\<close>

theorem deleteExpense_marks_log_only:
  assumes "s = run cs init" and "i < length (expenses s)" and "s' = snd (deleteExpense i s)"
  shows "deleted (expenses s' ! i)
     \<and> (\<forall>j<length (expenses s). j \<noteq> i \<longrightarrow> expenses s' ! j = expenses s ! j)
     \<and> categoryMap s' = categoryMap s \<and> maxHeap s' = maxHeap s
     \<and> (expenses s' ! i)\<lparr>deleted := False\<rparr> \<in> set (maxHeap s')
     \<and> (expenses s' ! i)\<lparr>deleted := False\<rparr> \<in> set (um_at (categoryMap s') (category (expenses s' ! i)) [])
     \<and> (\<forall>e\<in>set (maxHeap s'). \<not> deleted e)
     \<and> (\<forall>K. \<forall>e\<in>set (um_at (categoryMap s') K []). \<not> deleted e)"
proof -
  from assms(1) have "copies_match s" by (simp add: copies_match_run copies_match_init)
  then have cm: "copies_match s'"
    using assms(3) copies_match_step[of s "DeleteExpense i"] by simp
  from assms(2,3) have len: "i < length (expenses s')" by (simp add: deleteExpense_def)
  have heap: "set (maxHeap s') = undeleted ` set (expenses s')"
    using cm by (metis copies_match_def set_image_mset set_mset_mset)
  have bucket: "set (um_at (categoryMap s') K []) =
        {e \<in> undeleted ` set (expenses s'). category e = K}" for K
  proof -
    from cm have "set_mset (mset (um_at (categoryMap s') K [])) =
        set_mset (filter_mset (\<lambda>e. category e = K) (image_mset undeleted (mset (expenses s'))))"
      by (simp only: copies_match_def)
    then show ?thesis by (simp del: mset_map)
  qed
  have copy: "undeleted (expenses s' ! i) \<in> undeleted ` set (expenses s')"
    using len by simp
  have "deleted (expenses s' ! i)"
    using assms(2,3) by (simp add: deleteExpense_def)
  moreover have "\<forall>j<length (expenses s). j \<noteq> i \<longrightarrow> expenses s' ! j = expenses s ! j"
    using assms(2,3) by (simp add: deleteExpense_def)
  moreover have "categoryMap s' = categoryMap s" "maxHeap s' = maxHeap s"
    using assms(3) by simp_all
  moreover have "(expenses s' ! i)\<lparr>deleted := False\<rparr> \<in> set (maxHeap s')"
    using copy heap by (simp add: undeleted_def)
  moreover have "(expenses s' ! i)\<lparr>deleted := False\<rparr>
        \<in> set (um_at (categoryMap s') (category (expenses s' ! i)) [])"
    using copy unfolding bucket by (simp add: undeleted_def)
  moreover have "\<forall>e\<in>set (maxHeap s'). \<not> deleted e"
    unfolding heap by (auto simp: undeleted_def)
  moreover have "\<forall>K. \<forall>e\<in>set (um_at (categoryMap s') K []). \<not> deleted e"
    unfolding bucket by (auto simp: undeleted_def)
  ultimately show ?thesis by blast
qed

theorem deleteExpense_marks_log_only_witness:
  "0 < length (expenses (run example_adds init))
   \<and> deleted (expenses (snd (deleteExpense 0 (run example_adds init))) ! 0)
   \<and> \<lparr>amount = 1250, category = ''food'', date = ''2024-01-05'', deleted = False\<rparr>
       \<in> set (maxHeap (snd (deleteExpense 0 (run example_adds init))))
   \<and> \<lparr>amount = 1250, category = ''food'', date = ''2024-01-05'', deleted = False\<rparr>
       \<in> set (um_at (categoryMap (snd (deleteExpense 0 (run example_adds init)))) ''food'' [])"
proof -
  let ?s = "run example_adds init"
  let ?s' = "snd (deleteExpense 0 ?s)"
  have valid: "0 < length (expenses ?s)" by code_simp
  have copy: "(expenses ?s' ! 0)\<lparr>deleted := False\<rparr>
        = \<lparr>amount = 1250, category = ''food'', date = ''2024-01-05'', deleted = False\<rparr>"
    by code_simp
  have cat: "category (expenses ?s' ! 0) = ''food''" by code_simp
  from deleteExpense_marks_log_only[OF refl valid refl]
  have "deleted (expenses ?s' ! 0)"
    and "(expenses ?s' ! 0)\<lparr>deleted := False\<rparr> \<in> set (maxHeap ?s')"
    and "(expenses ?s' ! 0)\<lparr>deleted := False\<rparr>
          \<in> set (um_at (categoryMap ?s') (category (expenses ?s' ! 0)) [])"
    by blast+
  then show ?thesis using valid unfolding copy cat by blast
qed

section \<open>Viewing the log\<close>

lemma added_snoc:
  "added (cs @ [ch]) = (case ch of AddExpense a c d \<Rightarrow> added cs @ [(a, c, d)] | _ \<Rightarrow> added cs)"
  by (induction cs rule: added.induct) (simp_all split: choice.splits)

lemma added_append: "added (xs @ ys) = added xs @ added ys"
  by (induction xs rule: added.induct) simp_all

lemma added_take_le: "length (added (take j cs)) \<le> length (added cs)"
proof -
  have "added cs = added (take j cs) @ added (drop j cs)"
    by (metis added_append append_take_drop_id)
  then show ?thesis by simp
qed

lemma deleted_by_snoc:
  "deleted_by (cs @ [ch]) i \<longleftrightarrow>
     deleted_by cs i \<or> (ch = DeleteExpense i \<and> i < length (added cs))"
proof -
  have "(\<exists>j<length cs. (cs @ [ch]) ! j = DeleteExpense i \<and> i < length (added (take j (cs @ [ch]))))
        \<longleftrightarrow> (\<exists>j<length cs. cs ! j = DeleteExpense i \<and> i < length (added (take j cs)))"
    by (auto simp: nth_append)
  then show ?thesis
    by (auto simp: deleted_by_def list_ex_iff nth_append)
qed

lemma log_matches_init: "log_matches [] init"
  by (simp add: log_matches_def init_def)

lemma log_matches_step:
  assumes "log_matches cs s" and "\<not> sorts_log ch"
  shows "log_matches (cs @ [ch]) (snd (step ch s))"
proof (cases ch)
  case (AddExpense a c d)
  have e: "expenses (addExpense a c d s) =
           expenses s @ [\<lparr>amount = a, category = c, date = d, deleted = False\<rparr>]"
    by (simp add: addExpense_def Let_def)
  from assms(1) have len: "length (expenses s) = length (added cs)"
    by (metis log_matches_def length_map)
  have fresh: "\<not> deleted_by cs (length (added cs))"
    using added_take_le[of _ cs] by (auto simp: deleted_by_def list_ex_iff not_less)
  from assms(1) show ?thesis
    unfolding log_matches_def AddExpense
    by (auto simp: e added_snoc deleted_by_snoc entry_of_def nth_append len fresh less_Suc_eq)
next
  case (DeleteExpense k)
  from assms(1) have len: "length (expenses s) = length (added cs)"
    by (metis log_matches_def length_map)
  have fld: "map entry_of ((expenses s)[k := (expenses s ! k)\<lparr>deleted := True\<rparr>]) = map entry_of (expenses s)"
  proof (rule nth_equalityI)
    fix j assume "j < length (map entry_of ((expenses s)[k := (expenses s ! k)\<lparr>deleted := True\<rparr>]))"
    then have "j < length (expenses s)" by simp
    then show "map entry_of ((expenses s)[k := (expenses s ! k)\<lparr>deleted := True\<rparr>]) ! j
             = map entry_of (expenses s) ! j"
      by (cases "k = j") (simp_all add: entry_of_def)
  qed simp
  from assms(1) show ?thesis
    unfolding log_matches_def DeleteExpense
    by (auto simp: deleteExpense_def added_snoc deleted_by_snoc fld nth_list_update len)
next
  case (FilterByDate d)
  with assms(2) show ?thesis by simp
qed (use assms(1) in \<open>simp_all add: log_matches_def added_snoc deleted_by_snoc\<close>)

lemma log_matches_run:
  "\<not> list_ex sorts_log cs \<Longrightarrow> log_matches cs (run cs init)"
proof (induction cs rule: rev_induct)
  case Nil
  then show ?case by (simp add: log_matches_init)
next
  case (snoc ch cs)
  then show ?case by (simp add: run_snoc log_matches_step)
qed

lemma map_filter_by_index:
  "map f (filter P xs) = map (\<lambda>i. f (xs ! i)) (filter (\<lambda>i. P (xs ! i)) [0..<length xs])"
proof (induction xs rule: rev_induct)
  case Nil
  then show ?case by simp
next
  case (snoc x xs)
  have idx: "filter (\<lambda>i. P ((xs @ [x]) ! i)) [0..<length xs]
             = filter (\<lambda>i. P (xs ! i)) [0..<length xs]"
    by (rule filter_cong) (simp_all add: nth_append)
  have "map (\<lambda>i. f ((xs @ [x]) ! i)) (filter (\<lambda>i. P (xs ! i)) [0..<length xs])
        = map (\<lambda>i. f (xs ! i)) (filter (\<lambda>i. P (xs ! i)) [0..<length xs])"
    by (rule map_cong) (simp_all add: nth_append)
  with snoc idx show ?case by simp
qed

text \<open>
  Claim C7. After a run of calls from the empty store in which \<^verbatim>\<open>filterByDate\<close> does not
  occur, \<^verbatim>\<open>viewExpenses\<close> prints one row for each added expense that no call has deleted, in
  the order the expenses were added; the log itself holds the added expenses in that order.
\<close>

theorem viewExpenses_insertion_order:
  assumes "\<not> list_ex sorts_log cs"
  shows "rows (viewExpenses (run cs init)) = map (\<lambda>(a, c, d). Row a [c, d]) (visible cs)
     \<and> map entry_of (expenses (run cs init)) = added cs"
proof -
  let ?xs = "expenses (run cs init)"
  from log_matches_run[OF assms] have f: "map entry_of ?xs = added cs"
    and d: "\<forall>i<length ?xs. deleted (?xs ! i) = deleted_by cs i"
    by (simp_all add: log_matches_def)
  from f have len: "length (added cs) = length ?xs" by (metis length_map)
  have nth: "added cs ! i = entry_of (?xs ! i)" if "i < length ?xs" for i
    using that f by (metis nth_map)
  have idx: "filter (\<lambda>i. \<not> deleted (?xs ! i)) [0..<length ?xs]
           = filter (\<lambda>i. \<not> deleted_by cs i) [0..<length ?xs]"
    using d by (auto intro: filter_cong)
  have "rows (viewExpenses (run cs init))
        = map (\<lambda>e. Row (amount e) [category e, date e]) (filter (\<lambda>e. \<not> deleted e) ?xs)"
    unfolding viewExpenses_def rows_Text by (rule rows_map_Row)
  also have "\<dots> = map (\<lambda>i. Row (amount (?xs ! i)) [category (?xs ! i), date (?xs ! i)])
                    (filter (\<lambda>i. \<not> deleted (?xs ! i)) [0..<length ?xs])"
    by (rule map_filter_by_index)
  also have "\<dots> = map (\<lambda>(a, c, d). Row a [c, d]) (visible cs)"
    unfolding visible_def len idx by (auto simp: nth entry_of_def)
  finally show ?thesis using f by simp
qed

theorem viewExpenses_insertion_order_witness:
  "\<not> list_ex sorts_log (example_adds @ [DeleteExpense 0, ViewTopExpenses 2])
   \<and> rows (viewExpenses (run (example_adds @ [DeleteExpense 0, ViewTopExpenses 2]) init))
       = [Row 4000 [''food'', ''2024-01-06''], Row 10000 [''travel'', ''2024-01-05'']]"
proof -
  let ?cs = "example_adds @ [DeleteExpense 0, ViewTopExpenses 2]"
  have unsorted: "\<not> list_ex sorts_log ?cs" by code_simp
  have "map (\<lambda>(a, c, d). Row a [c, d]) (visible ?cs)
        = [Row 4000 [''food'', ''2024-01-06''], Row 10000 [''travel'', ''2024-01-05'']]"
    by code_simp
  with viewExpenses_insertion_order[OF unsorted] unsorted show ?thesis by simp
qed

section \<open>The top expenses\<close>

text \<open>
  Claim C9. \<^verbatim>\<open>viewTopExpenses(N)\<close> pops from the local copy \<^verbatim>\<open>tempHeap\<close> only: the store after
  the call, the member \<^verbatim>\<open>maxHeap\<close> included, is the store before it.
\<close>

theorem viewTopExpenses_frame:
  "snd (viewTopExpenses N s) = s
   \<and> maxHeap (snd (viewTopExpenses N s)) = maxHeap s
   \<and> run [ViewTopExpenses N] s = s"
  by (simp add: viewTopExpenses_def)

lemma pq_best_mem: "pq_best b es \<in> set (b # es)"
  by (induction es arbitrary: b) auto

lemma pq_best_ge:
  fixes b :: "('a::linorder) Expense"
  shows "\<forall>e\<in>set (b # es). amount e \<le> amount (pq_best b es)"
proof (induction es arbitrary: b)
  case Nil
  then show ?case by simp
next
  case (Cons x es)
  let ?b' = "if CompareByAmount b x then x else b"
  from Cons[of ?b'] have ih: "\<forall>e\<in>set (?b' # es). amount e \<le> amount (pq_best ?b' es)" .
  then have "amount ?b' \<le> amount (pq_best ?b' es)" by simp
  moreover have "amount b \<le> amount ?b'" "amount x \<le> amount ?b'"
    by (auto simp: CompareByAmount_def)
  ultimately have "amount b \<le> amount (pq_best ?b' es)" "amount x \<le> amount (pq_best ?b' es)"
    by auto
  with ih show ?case by simp
qed

lemma pq_top_mem: "h \<noteq> [] \<Longrightarrow> pq_top h \<in> set h"
  by (cases h) (simp_all add: pq_best_mem del: set_simps)

lemma pq_top_ge:
  fixes h :: "('a::linorder) Expense list"
  shows "h \<noteq> [] \<Longrightarrow> e \<in> set h \<Longrightarrow> amount e \<le> amount (pq_top h)"
  using pq_best_ge by (cases h) (simp, fastforce)

lemma mset_pq_pop: "h \<noteq> [] \<Longrightarrow> add_mset (pq_top h) (mset (pq_pop h)) = mset h"
  by (simp add: pq_pop_def pq_top_mem)

text \<open>
  On a heap without marked entries the loop prints \<open>min N (length h)\<close> rows, of entries of
  the heap, in non-increasing order of amount, and no entry left out has a larger amount
  than a printed one.
\<close>

lemma top_loop_ranks:
  fixes h :: "('a::linorder) Expense list"
  assumes "\<forall>e\<in>set h. \<not> deleted e"
  shows "\<exists>es. top_loop N h = map top_row es
           \<and> length es = min N (length h)
           \<and> mset es \<subseteq># mset h
           \<and> sorted (rev (map amount es))
           \<and> (\<forall>x\<in>set es. \<forall>y\<in>#mset h - mset es. amount y \<le> amount x)"
  using assms
proof (induction N arbitrary: h)
  case 0
  then show ?case by simp
next
  case (Suc N)
  show ?case
  proof (cases "h = []")
    case True
    then show ?thesis by (simp add: pq_empty_def)
  next
    case False
    let ?t = "pq_top h" and ?h' = "pq_pop h"
    from False have ms: "mset h = add_mset ?t (mset ?h')" by (simp add: mset_pq_pop)
    have sub: "set ?h' \<subseteq> set h" by (simp add: pq_pop_def set_remove1_subset)
    with Suc.prems have "\<forall>e\<in>set ?h'. \<not> deleted e" by blast
    from Suc.IH[OF this] obtain es where es:
      "top_loop N ?h' = map top_row es" "length es = min N (length ?h')"
      "mset es \<subseteq># mset ?h'" "sorted (rev (map amount es))"
      "\<forall>x\<in>set es. \<forall>y\<in>#mset ?h' - mset es. amount y \<le> amount x"
      by blast
    from False Suc.prems have nd: "\<not> deleted ?t" by (simp add: pq_top_mem)
    from ms have len: "length h = Suc (length ?h')" by (metis size_mset size_add_mset)
    have ge: "amount e \<le> amount ?t" if "e \<in> set h" for e
      using that False by (rule pq_top_ge[rotated])
    have es_in: "set es \<subseteq> set h"
    proof -
      from es(3) have "set_mset (mset es) \<subseteq> set_mset (mset ?h')" by (rule set_mset_mono)
      with sub show ?thesis by auto
    qed
    have 1: "top_loop (Suc N) h = map top_row (?t # es)"
      using False nd es(1) by (simp add: pq_empty_def Let_def top_row_def)
    have 2: "length (?t # es) = min (Suc N) (length h)"
      using es(2) len by simp
    have 3: "mset (?t # es) \<subseteq># mset h"
      using es(3) ms by simp
    have 4: "sorted (rev (map amount (?t # es)))"
      using es(4) es_in ge by (auto simp: sorted_append)
    have rest: "mset h - mset (?t # es) = mset ?h' - mset es"
      using ms by simp
    have 5: "\<forall>x\<in>set (?t # es). \<forall>y\<in>#mset h - mset (?t # es). amount y \<le> amount x"
      unfolding rest using es(5) ge sub by (auto dest!: in_diffD)
    from 1 2 3 4 5 show ?thesis by blast
  qed
qed

text \<open>
  In a reached state the heap is the log with every mark cleared, so the ranking is over
  all expenses ever added, the deleted ones included.
\<close>

lemma viewTopExpenses_ranks_all_added:
  fixes cs :: "('a::{linorder,zero,plus}) choice list"
  shows "\<exists>es. rows (fst (viewTopExpenses N (run cs init))) = map top_row es
           \<and> length es = min N (length (expenses (run cs init)))
           \<and> mset es \<subseteq># image_mset undeleted (mset (expenses (run cs init)))
           \<and> sorted (rev (map amount es))
           \<and> (\<forall>x\<in>set es. \<forall>y\<in>#image_mset undeleted (mset (expenses (run cs init))) - mset es.
                 amount y \<le> amount x)"
proof -
  let ?s = "run cs init :: 'a ExpenseTracker"
  have cm: "copies_match ?s" by (simp add: copies_match_run copies_match_init)
  then have h: "mset (maxHeap ?s) = image_mset undeleted (mset (expenses ?s))"
    by (simp add: copies_match_def)
  then have "set (maxHeap ?s) = undeleted ` set (expenses ?s)"
    by (metis set_image_mset set_mset_mset)
  then have "\<forall>e\<in>set (maxHeap ?s). \<not> deleted e" by (auto simp: undeleted_def)
  from top_loop_ranks[OF this, of N] obtain es where es:
    "top_loop N (maxHeap ?s) = map top_row es" "length es = min N (length (maxHeap ?s))"
    "mset es \<subseteq># mset (maxHeap ?s)" "sorted (rev (map amount es))"
    "\<forall>x\<in>set es. \<forall>y\<in>#mset (maxHeap ?s) - mset es. amount y \<le> amount x"
    by blast
  from h have "length (maxHeap ?s) = length (expenses ?s)"
    by (metis size_mset size_image_mset)
  moreover have "rows (fst (viewTopExpenses N ?s)) = map top_row es"
    using es(1) by (simp add: viewTopExpenses_def rows_def top_row_def)
  ultimately show ?thesis using es(2-5) unfolding h by auto
qed

text \<open>
  Claim C2 (\<^verbatim>\<open>viewTopExpenses(N)\<close> prints the \<open>N\<close> largest expenses among those not deleted)
  at a concrete run. After the three additions of the example and \<^verbatim>\<open>deleteExpense(2)\<close>, the
  log no longer shows the travel expense of 10000, yet \<^verbatim>\<open>viewTopExpenses(1)\<close> prints it and
  not the largest expense still shown, 4000: the heap holds the copy made by \<^verbatim>\<open>addExpense\<close>,
  whose mark is never set, so the test \<^verbatim>\<open>if (!top.deleted)\<close> of the loop always succeeds.
\<close>

theorem viewTopExpenses_prints_deleted:
  "rows (fst (viewTopExpenses 1 (run (example_adds @ [DeleteExpense 2]) init)))
     = [Row 10000 [''travel'', ''2024-01-05'']]
   \<and> rows (viewExpenses (run (example_adds @ [DeleteExpense 2]) init))
     = [Row 1250 [''food'', ''2024-01-05''], Row 4000 [''food'', ''2024-01-06'']]"
  by code_simp

section \<open>Filtering by date\<close>

lemma takeWhile_le_eq_filter:
  fixes d :: string
  assumes "sorted (map date xs)" "\<forall>e\<in>set xs. d \<le> date e"
  shows "takeWhile (\<lambda>e. \<not> d < date e) xs = filter (\<lambda>e. date e = d) xs"
  using assms
proof (induction xs)
  case Nil
  then show ?case by simp
next
  case (Cons x xs)
  show ?case
  proof (cases "d < date x")
    case True
    with Cons.prems have "\<forall>e\<in>set xs. d < date e" by auto
    then have "filter (\<lambda>e. date e = d) xs = []" by (auto simp: filter_empty_conv)
    with True show ?thesis by simp
  next
    case False
    with Cons.prems have "date x = d" by auto
    with Cons show ?thesis by simp
  qed
qed

lemma equal_range_eq_filter:
  assumes "sorted (map date xs)"
  shows "take (upper_bound xs v - lower_bound xs v) (drop (lower_bound xs v) xs)
         = filter (\<lambda>e. date e = date v) xs"
  using assms
proof (induction xs)
  case Nil
  then show ?case by simp
next
  case (Cons x xs)
  let ?d = "date v"
  consider (lt) "date x < ?d" | (eq) "date x = ?d" | (gt) "?d < date x"
    using less_linear by blast
  then show ?case
  proof cases
    case lt
    then have "\<not> ?d < date x" "date x \<noteq> ?d" by auto
    with lt Cons show ?thesis
      by (simp add: lower_bound_def upper_bound_def expense_less_def)
  next
    case eq
    from Cons.prems eq have ge: "\<forall>e\<in>set xs. ?d \<le> date e" by auto
    from Cons.prems have "sorted (map date xs)" by simp
    from takeWhile_le_eq_filter[OF this ge] eq show ?thesis
      by (simp add: lower_bound_def upper_bound_def expense_less_def)
        (metis length_takeWhile_le take_all takeWhile_eq_take)
  next
    case gt
    with Cons.prems have "\<forall>e\<in>set xs. ?d < date e" by auto
    then have "filter (\<lambda>e. date e = ?d) xs = []" by (auto simp: filter_empty_conv)
    with gt show ?thesis
      by (simp add: lower_bound_def upper_bound_def expense_less_def)
  qed
qed

lemma filterByDate_rows_sorted:
  "rows (fst (filterByDate d s)) =
     map (\<lambda>e. Row (amount e) [category e])
       (filter (\<lambda>e. date e = d \<and> \<not> deleted e) (std_sort (expenses s)))"
proof -
  let ?xs = "std_sort (expenses s)"
  let ?v = "\<lparr>amount = 0, category = [], date = d, deleted = False\<rparr> :: 'a Expense"
  have range: "take (upper_bound ?xs ?v - lower_bound ?xs ?v) (drop (lower_bound ?xs ?v) ?xs)
               = filter (\<lambda>e. date e = d) ?xs"
    using equal_range_eq_filter[of ?xs ?v] by (simp add: sorted_std_sort)
  have split: "filter (\<lambda>e. date e = d \<and> \<not> deleted e) ?xs
               = filter (\<lambda>e. \<not> deleted e) (filter (\<lambda>e. date e = d) ?xs)"
    by simp
  show ?thesis
  proof (cases "lower_bound ?xs ?v = upper_bound ?xs ?v")
    case True
    with range have "filter (\<lambda>e. date e = d) ?xs = []" by simp
    with True split show ?thesis
      by (simp add: filterByDate_def Let_def rows_def)
  next
    case False
    have "rows (fst (filterByDate d s)) =
          rows (map (\<lambda>e. Row (amount e) [category e])
            (filter (\<lambda>e. \<not> deleted e) (filter (\<lambda>e. date e = d) ?xs)))"
      using False range by (simp add: filterByDate_def Let_def rows_def)
    then show ?thesis
      unfolding split rows_map_Row .
  qed
qed

text \<open>
  Claim C5. The rows \<^verbatim>\<open>filterByDate(d)\<close> prints are, as a multiset, the rows of exactly the
  log entries with date \<open>d\<close> that are not marked deleted. The right-hand side depends on
  the log only as a multiset, so the order of insertion plays no part; when no entry has
  date \<open>d\<close> no row is printed.
\<close>

theorem filterByDate_correct:
  "mset (rows (fst (filterByDate d s))) =
     image_mset (\<lambda>e. Row (amount e) [category e])
       (filter_mset (\<lambda>e. date e = d \<and> \<not> deleted e) (mset (expenses s)))
   \<and> ((\<forall>e\<in>set (expenses s). date e \<noteq> d) \<longrightarrow> rows (fst (filterByDate d s)) = [])"
proof -
  have "mset (rows (fst (filterByDate d s))) =
        image_mset (\<lambda>e. Row (amount e) [category e])
          (filter_mset (\<lambda>e. date e = d \<and> \<not> deleted e) (mset (std_sort (expenses s))))"
    unfolding filterByDate_rows_sorted by (simp only: mset_map mset_filter)
  moreover have "(\<forall>e\<in>set (expenses s). date e \<noteq> d) \<longrightarrow> rows (fst (filterByDate d s)) = []"
    unfolding filterByDate_rows_sorted by (auto simp: filter_empty_conv)
  ultimately show ?thesis by simp
qed

theorem filterByDate_correct_witness:
  "''2024-02-01'' \<notin> date ` set (expenses example_store)
   \<and> rows (fst (filterByDate ''2024-02-01'' example_store)) = []
   \<and> mset (rows (fst (filterByDate ''2024-01-05'' example_store)))
       = {#Row 1250 [''food''], Row 10000 [''travel'']#}"
proof -
  have none: "''2024-02-01'' \<notin> date ` set (expenses example_store)" by code_simp
  then have "\<forall>e\<in>set (expenses example_store). date e \<noteq> ''2024-02-01''" by (auto simp: image_iff)
  with filterByDate_correct[of "''2024-02-01''" example_store]
  have "rows (fst (filterByDate ''2024-02-01'' example_store)) = []" by blast
  moreover have "image_mset (\<lambda>e. Row (amount e) [category e])
       (filter_mset (\<lambda>e. date e = ''2024-01-05'' \<and> \<not> deleted e) (mset (expenses example_store)))
       = {#Row 1250 [''food''], Row 10000 [''travel'']#}"
    by (simp add: example_store_def example_adds_def init_def addExpense_def Let_def)
  with filterByDate_correct[of "''2024-01-05''" example_store]
  have "mset (rows (fst (filterByDate ''2024-01-05'' example_store)))
       = {#Row 1250 [''food''], Row 10000 [''travel'']#}" by simp
  ultimately show ?thesis using none by blast
qed

text \<open>
  Claim C6. \<^verbatim>\<open>filterByDate\<close> sorts the log in place with \<^verbatim>\<open>Expense::operator<\<close>: afterwards the
  log holds the same records (each with the fields it had), no record is less than one in
  front of it, which is to say that the dates are in non-decreasing lexicographic order,
  and the other three members are untouched. Positions of the log may then hold other
  records than before: in the store of the example, reached by three \<^verbatim>\<open>addExpense\<close> calls,
  position 1 holds the food expense of 2024-01-06 before the call and a record of
  2024-01-05 after it.
\<close>

theorem filterByDate_sorts_log:
  "mset (expenses (snd (filterByDate d s))) = mset (expenses s)
   \<and> sorted_wrt (\<lambda>a b. \<not> expense_less b a) (expenses (snd (filterByDate d s)))
   \<and> sorted (map date (expenses (snd (filterByDate d s))))
   \<and> categoryMap (snd (filterByDate d s)) = categoryMap s
   \<and> categoryTotals (snd (filterByDate d s)) = categoryTotals s
   \<and> maxHeap (snd (filterByDate d s)) = maxHeap s
   \<and> 1 < length (expenses (run example_adds init))
   \<and> expenses (snd (filterByDate ''2024-01-05'' (run example_adds init))) ! 1
       \<noteq> expenses (run example_adds init) ! 1
   \<and> date (expenses (run example_adds init) ! 1) = ''2024-01-06''
   \<and> date (expenses (snd (filterByDate ''2024-01-05'' (run example_adds init))) ! 1) = ''2024-01-05''"
proof -
  have log: "expenses (snd (filterByDate d s)) = std_sort (expenses s)"
    by (simp add: filterByDate_def Let_def)
  have "mset (expenses (snd (filterByDate d s))) = mset (expenses s)"
    unfolding log by (rule mset_std_sort)
  moreover have "sorted_wrt (\<lambda>a b. \<not> expense_less b a) (expenses (snd (filterByDate d s)))"
    unfolding log by (rule sorted_wrt_std_sort)
  moreover have "sorted (map date (expenses (snd (filterByDate d s))))"
    unfolding log by (rule sorted_std_sort)
  moreover have "categoryMap (snd (filterByDate d s)) = categoryMap s"
    "categoryTotals (snd (filterByDate d s)) = categoryTotals s"
    "maxHeap (snd (filterByDate d s)) = maxHeap s"
    by (simp_all add: filterByDate_def Let_def)
  moreover have "1 < length (expenses (run example_adds init))"
    by code_simp
  moreover have "expenses (snd (filterByDate ''2024-01-05'' (run example_adds init))) ! 1
       \<noteq> expenses (run example_adds init) ! 1"
    by code_simp
  moreover have "date (expenses (run example_adds init) ! 1) = ''2024-01-06''"
    by code_simp
  moreover have
    "date (expenses (snd (filterByDate ''2024-01-05'' (run example_adds init))) ! 1) = ''2024-01-05''"
    by code_simp
  ultimately show ?thesis by blast
qed

end
